theory Spec2Isabelle
  imports Main
begin

section \<open>Range specifications: the parser\<close>

text \<open>
  Python strings are modelled as \<^typ>\<open>string\<close>, that is as lists of characters with code
  points below 256. On that range the regular-expression class \<^verbatim>\<open>\d\<close> is exactly the ten
  ASCII digits. Python integers are \<^typ>\<open>int\<close>; lengths are \<^typ>\<open>nat\<close>.
\<close>

definition is_digit :: "char \<Rightarrow> bool" where
  "is_digit c \<longleftrightarrow> c \<in> set ''0123456789''"

definition digit_value :: "char \<Rightarrow> int" where
  "digit_value c = int (of_char c) - 48"

text \<open>
  \<^verbatim>\<open>int(m.group(1))\<close> on a run of decimal digits. The interpreter's configurable limit
  on the length of a decimal text is not modelled.
\<close>

definition py_int :: "string \<Rightarrow> int" where
  "py_int ds = foldl (\<lambda>a c. 10 * a + digit_value c) 0 ds"

text \<open>
  The anchor \<^verbatim>\<open>$\<close> (no MULTILINE flag) holds at the end of the string and also just
  before a newline that is the last character of the string.
\<close>

definition at_dollar :: "string \<Rightarrow> nat \<Rightarrow> bool" where
  "at_dollar s j \<longleftrightarrow> j = length s \<or> (Suc j = length s \<and> s ! j = CHR 0x0A)"

text \<open>
  \<^verbatim>\<open>(\d+)$\<close> tried at start position \<open>i\<close>: the greedy group first takes the whole digit
  run and then gives back one digit at a time until the anchor holds; it keeps at least
  one digit. The result is the end position of the group.
\<close>

fun backtrack :: "string \<Rightarrow> nat \<Rightarrow> nat \<Rightarrow> nat option" where
  "backtrack s i 0 = None"
| "backtrack s i (Suc k) =
     (if at_dollar s (i + Suc k) then Some (i + Suc k) else backtrack s i k)"

definition match_here :: "string \<Rightarrow> nat \<Rightarrow> nat option" where
  "match_here s i = backtrack s i (length (takeWhile is_digit (drop i s)))"

text \<open>\<^verbatim>\<open>re.search\<close> scans the start positions from left to right and keeps the first match.\<close>

fun search_from :: "string \<Rightarrow> nat list \<Rightarrow> (nat \<times> nat) option" where
  "search_from s [] = None"
| "search_from s (i # is) =
     (case match_here s i of Some e \<Rightarrow> Some (i, e) | None \<Rightarrow> search_from s is)"

definition re_search :: "string \<Rightarrow> (nat \<times> nat) option" where
  "re_search s = search_from s [0..<Suc (length s)]"

definition split_prefix_num :: "string \<Rightarrow> string \<times> int option \<times> nat" where
  "split_prefix_num s =
     (case re_search s of
        None \<Rightarrow> (s, None, 0)
      | Some (b, e) \<Rightarrow>
          (let g = take (e - b) (drop b s);
               num = py_int g;
               prefix = take b s;
               width = length g
           in (prefix, Some num, width)))"

section \<open>Range specifications: the expander\<close>

text \<open>The four \<^verbatim>\<open>ValueError\<close>s of \<^verbatim>\<open>expand_range\<close>, told apart by their message.\<close>

datatype value_error =
  RangeMustContainDots
| EndpointsMustEndWithNumber
| PrefixesDiffer string string
| StartGreaterThanEnd

text \<open>
  \<^verbatim>\<open>'..' in spec\<close> together with \<^verbatim>\<open>spec.split('..', 1)\<close>: \<open>None\<close> when there is no
  occurrence, otherwise the text before and after the first occurrence.
\<close>

fun split_dots :: "string \<Rightarrow> (string \<times> string) option" where
  "split_dots (a # b # cs) =
     (if a = CHR ''.'' \<and> b = CHR ''.'' then Some ([], cs)
      else map_option (\<lambda>(l, r). (a # l, r)) (split_dots (b # cs)))"
| "split_dots [a] = None"
| "split_dots [] = None"

definition digit_char :: "nat \<Rightarrow> char" where
  "digit_char n = ''0123456789'' ! n"

text \<open>\<^verbatim>\<open>str(i)\<close> for an integer.\<close>

fun str_nat :: "nat \<Rightarrow> string" where
  "str_nat n = (if n < 10 then [digit_char n] else str_nat (n div 10) @ [digit_char (n mod 10)])"

declare str_nat.simps [simp del]

definition str_int :: "int \<Rightarrow> string" where
  "str_int i = (if i < 0 then CHR ''-'' # str_nat (nat (- i)) else str_nat (nat i))"

text \<open>
  \<^verbatim>\<open>str.zfill(width)\<close>: a string at least as long as the width is returned as it is;
  otherwise zeros are inserted on the left, after a leading sign if there is one.
\<close>

definition zfill :: "string \<Rightarrow> nat \<Rightarrow> string" where
  "zfill s width =
     (if width \<le> length s then s
      else (case s of
              [] \<Rightarrow> replicate width (CHR ''0'')
            | c # rest \<Rightarrow>
                if c = CHR ''+'' \<or> c = CHR ''-''
                then c # replicate (width - length s) (CHR ''0'') @ rest
                else replicate (width - length s) (CHR ''0'') @ s))"

text \<open>\<^verbatim>\<open>range(n1, n2)\<close> is the list \<open>[n1..n2 - 1]\<close> of integers.\<close>

definition expand_range :: "string \<Rightarrow> value_error + string list" where
  "expand_range spec =
     (case split_dots spec of
        None \<Rightarrow> Inl RangeMustContainDots
      | Some (left, right) \<Rightarrow>
          (case split_prefix_num left of (p1, n1, w1) \<Rightarrow>
           case split_prefix_num right of (p2, n2, w2) \<Rightarrow>
             (case n1 of
                None \<Rightarrow> Inl EndpointsMustEndWithNumber
              | Some m1 \<Rightarrow>
                  (case n2 of
                     None \<Rightarrow> Inl EndpointsMustEndWithNumber
                   | Some m2 \<Rightarrow>
                       if p1 \<noteq> p2 then Inl (PrefixesDiffer p1 p2)
                       else if m1 > m2 then Inl StartGreaterThanEnd
                       else (let width = max w1 w2
                             in Inr (map (\<lambda>i. p1 @ zfill (str_int i) width) [m1..m2 - 1]))))))"

section \<open>Batch selection\<close>

text \<open>
  The functions of \<^verbatim>\<open>os.path\<close> depend on the platform and on the working directory; the
  script's use of them is kept, the functions themselves are parameters. \<^verbatim>\<open>os.sep\<close> is a
  single character on every platform.
\<close>

record os_path =
  os_sep :: char
  os_relpath :: "string \<Rightarrow> string \<Rightarrow> string"
  os_join :: "string \<Rightarrow> string \<Rightarrow> string"
  os_split_tail :: "string \<Rightarrow> string"

text \<open>The command-line arguments that \<^verbatim>\<open>main\<close> reads.\<close>

record args_cli =
  args_input :: string
  args_output :: string
  args_subdirs :: "string option"

text \<open>\<^verbatim>\<open>str.isspace\<close> on code points below 256, and \<^verbatim>\<open>str.strip()\<close>.\<close>

definition is_space :: "char \<Rightarrow> bool" where
  "is_space c \<longleftrightarrow>
     (let n = (of_char c :: nat)
      in (9 \<le> n \<and> n \<le> 13) \<or> (28 \<le> n \<and> n \<le> 32) \<or> n = 133 \<or> n = 160)"

definition strip :: "string \<Rightarrow> string" where
  "strip s = rev (dropWhile is_space (rev (dropWhile is_space s)))"

text \<open>\<^verbatim>\<open>rel.split(os.sep)\<close>: the pieces between the separators, never an empty list.\<close>

fun split_sep :: "char \<Rightarrow> string \<Rightarrow> string list" where
  "split_sep sep [] = [[]]"
| "split_sep sep (c # cs) =
     (if c = sep then [] # split_sep sep cs
      else (case split_sep sep cs of
              [] \<Rightarrow> [[c]]
            | t # ts \<Rightarrow> (c # t) # ts))"

text \<open>\<^verbatim>\<open>rel.split(os.sep)[0]\<close>; the index is in range since the list is never empty.\<close>

definition top_segment :: "char \<Rightarrow> string \<Rightarrow> string" where
  "top_segment sep rel = (case split_sep sep rel of [] \<Rightarrow> [] | t # _ \<Rightarrow> t)"

text \<open>
  The loop over \<^verbatim>\<open>meshes_path\<close> that appends to \<^verbatim>\<open>filtered\<close>; the second list argument
  is the value of \<^verbatim>\<open>filtered\<close> so far.
\<close>

fun filter_loop ::
  "'x os_path_scheme \<Rightarrow> string \<Rightarrow> string set \<Rightarrow> string list \<Rightarrow> string list \<Rightarrow> string list" where
  "filter_loop os root allowed filtered [] = filtered"
| "filter_loop os root allowed filtered (p # ps) =
     (let rel = os_relpath os p root;
          top = top_segment (os_sep os) rel
      in filter_loop os root allowed (if top \<in> allowed then filtered @ [p] else filtered) ps)"

text \<open>
  The part of \<^verbatim>\<open>main\<close> between the discovery of the files and the conversion loop. The
  list \<^verbatim>\<open>meshes_path\<close> found by \<^verbatim>\<open>glob\<close> is an argument. Both guards are Python
  truthiness tests: \<^verbatim>\<open>args_cli.subdirs\<close> is skipped when it is \<^verbatim>\<open>None\<close> or empty,
  \<^verbatim>\<open>allowed\<close> when it is the empty set. The line that prints the allowed set is left out.
\<close>

definition select_meshes ::
  "'x os_path_scheme \<Rightarrow> 'y args_cli_scheme \<Rightarrow> string list \<Rightarrow> value_error + string list" where
  "select_meshes os args meshes_path =
     (case args_subdirs args of
        None \<Rightarrow> Inr meshes_path
      | Some sd \<Rightarrow>
          if sd = [] then Inr meshes_path
          else (let spec = strip sd
                in case expand_range spec of
                     Inl err \<Rightarrow> Inl err
                   | Inr names \<Rightarrow>
                       (let allowed = set names
                        in if allowed \<noteq> {}
                           then Inr (filter_loop os (args_input args) allowed [] meshes_path)
                           else Inr meshes_path)))"

section \<open>The guarded conversion loop\<close>

text \<open>
  The interpreter state that matters here is the binding of \<^verbatim>\<open>builtins.print\<close> and
  everything else (\<open>world\<close>). The converter \<^verbatim>\<open>run_convert\<close> is external: it is a parameter
  that may change the whole state, \<^verbatim>\<open>builtins.print\<close> included, and may raise. A raised
  exception is the first component of its result; the state it leaves behind is kept.
\<close>

record ('p, 'w) interp =
  builtins_print :: 'p
  world :: 'w

type_synonym ('p, 'w, 'e) converter =
  "string \<Rightarrow> string \<Rightarrow> ('p, 'w) interp \<Rightarrow> 'e option \<times> ('p, 'w) interp"

text \<open>
  What the runner itself does, in order: a call of \<^verbatim>\<open>print\<close> (with the function that
  \<^verbatim>\<open>builtins.print\<close> is bound to at that moment and the text), and a call of
  \<^verbatim>\<open>run_convert\<close> (with its two arguments).
\<close>

datatype 'p event = Printed 'p string | Converted string string

definition dest_path_of :: "'x os_path_scheme \<Rightarrow> 'y args_cli_scheme \<Rightarrow> string \<Rightarrow> string" where
  "dest_path_of os args mesh_path =
     (let relative_path = os_relpath os mesh_path (args_input args);
          dest_path = os_join os (args_output args) relative_path;
          name = os_split_tail os relative_path
      in os_join os (take (length dest_path - 4) dest_path)
                    (take (length name - 3) name @ ''usd''))"

text \<open>The \<^verbatim>\<open>for\<close> loop: an exception raised by an item ends it.\<close>

fun convert_loop ::
  "'x os_path_scheme \<Rightarrow> 'y args_cli_scheme \<Rightarrow> ('p, 'w, 'e) converter \<Rightarrow> string list \<Rightarrow>
   ('p, 'w) interp \<Rightarrow> 'p event list \<times> 'e option \<times> ('p, 'w) interp" where
  "convert_loop os args run_convert [] st = ([], None, st)"
| "convert_loop os args run_convert (mesh_path # rest) st =
     (let dest_path = dest_path_of os args mesh_path
      in case run_convert mesh_path dest_path st of
           (Some exn, st') \<Rightarrow> ([Converted mesh_path dest_path], Some exn, st')
         | (None, st') \<Rightarrow>
             (case convert_loop os args run_convert rest st' of
                (evs, res, st'') \<Rightarrow> (Converted mesh_path dest_path # evs, res, st'')))"

text \<open>
  The rest of \<^verbatim>\<open>main\<close>: \<^verbatim>\<open>builtins.print\<close> is saved and replaced by \<^verbatim>\<open>tqdm.write\<close>, the
  \<^verbatim>\<open>try\<close> block prints the number of files and runs the loop, and the \<^verbatim>\<open>finally\<close> block
  puts the saved function back on every way out. The progress bar itself is not modelled.
\<close>

definition run_batch ::
  "'x os_path_scheme \<Rightarrow> 'y args_cli_scheme \<Rightarrow> 'p \<Rightarrow> ('p, 'w, 'e) converter \<Rightarrow> string list \<Rightarrow>
   ('p, 'w) interp \<Rightarrow> 'p event list \<times> 'e option \<times> ('p, 'w) interp" where
  "run_batch os args tqdm_write run_convert meshes_path st =
     (let start = 0;
          total = length meshes_path;
          original_print = builtins_print st;
          st1 = st\<lparr>builtins_print := tqdm_write\<rparr>;
          line = ''Number of files to convert: '' @ str_int (int total)
      in case convert_loop os args run_convert (drop start meshes_path) st1 of
           (evs, res, st2) \<Rightarrow>
             (Printed (builtins_print st1) line # evs, res,
              st2\<lparr>builtins_print := original_print\<rparr>))"

text \<open>\<^verbatim>\<open>main\<close> as a whole: an invalid range ends it before anything is converted.\<close>

datatype 'e failure = InvalidSpec value_error | ItemFailed 'e

definition main ::
  "'x os_path_scheme \<Rightarrow> 'y args_cli_scheme \<Rightarrow> 'p \<Rightarrow> ('p, 'w, 'e) converter \<Rightarrow> string list \<Rightarrow>
   ('p, 'w) interp \<Rightarrow> 'p event list \<times> 'e failure option \<times> ('p, 'w) interp" where
  "main os args tqdm_write run_convert discovered st =
     (case select_meshes os args discovered of
        Inl err \<Rightarrow> ([], Some (InvalidSpec err), st)
      | Inr meshes_path \<Rightarrow>
          (case run_batch os args tqdm_write run_convert meshes_path st of
             (evs, res, st') \<Rightarrow> (evs, map_option ItemFailed res, st')))"

section \<open>Example values\<close>

text \<open>
  A concrete platform, command line and converter, on which the theorems are run. The
  converter records its calls in the state; on one file it raises, after rebinding
  \<^verbatim>\<open>builtins.print\<close>.
\<close>

datatype printer = BuiltinPrint | TqdmWrite | OtherPrint

definition example_os :: os_path where
  "example_os =
     \<lparr>os_sep = CHR ''/'',
      os_relpath = (\<lambda>p root. drop (Suc (length root)) p),
      os_join = (\<lambda>a b. a @ ''/'' @ b),
      os_split_tail = (\<lambda>p. rev (takeWhile (\<lambda>c. c \<noteq> CHR ''/'') (rev p)))\<rparr>"

definition example_args :: "string option \<Rightarrow> args_cli" where
  "example_args sd = \<lparr>args_input = ''in'', args_output = ''out'', args_subdirs = sd\<rparr>"

definition example_convert :: "(printer, (string \<times> string) list, string) converter" where
  "example_convert mesh_path dest_path st =
     (if mesh_path = ''in/001/bad.obj''
      then (Some ''cannot convert'', st\<lparr>builtins_print := OtherPrint\<rparr>)
      else (None, st\<lparr>world := world st @ [(mesh_path, dest_path)]\<rparr>))"

section \<open>Notions of the specification\<close>

text \<open>
  The specification speaks of the trailing run of digits of a string and of padding a
  number with zeros. These definitions follow its words; the theorems below compare them
  with the functions of the program.
\<close>

definition ends_in_digit :: "string \<Rightarrow> bool" where
  "ends_in_digit s \<longleftrightarrow> s \<noteq> [] \<and> is_digit (last s)"

definition trailing_digits :: "string \<Rightarrow> string" where
  "trailing_digits s = rev (takeWhile is_digit (rev s))"

definition strip_digits :: "string \<Rightarrow> string" where
  "strip_digits s = rev (dropWhile is_digit (rev s))"

definition zero_pad :: "int \<Rightarrow> nat \<Rightarrow> string" where
  "zero_pad i width = replicate (width - length (str_int i)) (CHR ''0'') @ str_int i"

text \<open>The strings in which the search of \<^verbatim>\<open>split_prefix_num\<close> finds a number.\<close>

definition accepted :: "string \<Rightarrow> bool" where
  "accepted s \<longleftrightarrow>
     ends_in_digit s \<or> (s \<noteq> [] \<and> last s = CHR 0x0A \<and> ends_in_digit (butlast s))"

section \<open>The regular-expression search\<close>

lemma backtrack_none:
  "(\<And>j. 0 < j \<Longrightarrow> j \<le> k \<Longrightarrow> \<not> at_dollar s (i + j)) \<Longrightarrow> backtrack s i k = None"
proof (induction k)
  case 0
  show ?case by simp
next
  case (Suc k)
  have "\<not> at_dollar s (i + Suc k)" using Suc.prems [of "Suc k"] by simp
  moreover have "backtrack s i k = None" using Suc.IH Suc.prems by simp
  ultimately show ?case by simp
qed

lemma backtrack_top:
  "0 < k \<Longrightarrow> at_dollar s (i + k) \<Longrightarrow> backtrack s i k = Some (i + k)"
  by (cases k) auto

lemma backtrack_Some:
  "backtrack s i k = Some e \<Longrightarrow> i < e \<and> e \<le> i + k \<and> at_dollar s e"
  by (induction k) (auto split: if_splits)

lemma search_from_skip:
  "(\<And>i. i \<in> set xs \<Longrightarrow> match_here s i = None) \<Longrightarrow> search_from s (xs @ ys) = search_from s ys"
  by (induction xs) auto

lemma search_from_none:
  "(\<And>i. i \<in> set xs \<Longrightarrow> match_here s i = None) \<Longrightarrow> search_from s xs = None"
  by (induction xs) auto

lemma takeWhile_shorter:
  "x \<in> set xs \<Longrightarrow> \<not> P x \<Longrightarrow> length (takeWhile P xs) < length xs"
  by (induction xs) auto

lemma run_inside_prefix:
  assumes "i < length p" "\<not> is_digit (last p)"
  shows "i + length (takeWhile is_digit (drop i (p @ t))) < length p"
proof -
  have ne: "drop i p \<noteq> []" using assms by simp
  have lastd: "last (drop i p) = last p" using assms by simp
  have mem: "last p \<in> set (drop i p)" using ne lastd last_in_set by metis
  have "takeWhile is_digit (drop i p @ t) = takeWhile is_digit (drop i p)" 
    using mem assms(2) by (rule takeWhile_append1)
  moreover have "length (takeWhile is_digit (drop i p)) < length (drop i p)"
    using mem assms(2) by (rule takeWhile_shorter)
  moreover have "drop i (p @ t) = drop i p @ t" using assms(1) by simp
  ultimately show ?thesis by simp
qed

lemma upt_split_at: "b \<le> n \<Longrightarrow> [0..<Suc n] = [0..<b] @ b # [Suc b..<Suc n]"
proof -
  assume le: "b \<le> n"
  have "[0..<Suc n] = [0..<b] @ [b..<Suc n]"
    using upt_add_eq_append [of 0 b "Suc n - b"] le by simp
  moreover have "[b..<Suc n] = b # [Suc b..<Suc n]"
    using le by (simp add: upt_conv_Cons)
  ultimately show ?thesis by simp
qed

lemma match_here_in_prefix:
  assumes "i < length p" "\<not> is_digit (last p)" "t \<noteq> []"
  shows "match_here (p @ t) i = None"
  unfolding match_here_def
proof (rule backtrack_none)
  fix j assume "0 < j" "j \<le> length (takeWhile is_digit (drop i (p @ t)))"
  then have "i + j < length p" using run_inside_prefix [OF assms(1,2), of t] by linarith
  moreover obtain a t' where "t = a # t'" using assms(3) by (cases t) auto
  ultimately show "\<not> at_dollar (p @ t) (i + j)" by (auto simp: at_dollar_def)
qed

lemma match_here_at_run:
  assumes "d \<noteq> []" "\<forall>c\<in>set d. is_digit c" "t = [] \<or> t = [CHR 0x0A]"
  shows "match_here (p @ d @ t) (length p) = Some (length p + length d)"
proof -
  have nl: "\<not> is_digit (CHR 0x0A)" by (simp add: is_digit_def)
  have run: "takeWhile is_digit (d @ t) = d" using assms(2,3) nl by (auto simp: takeWhile_append2)
  have "at_dollar (p @ d @ t) (length p + length d)"
    using assms(3) by (auto simp: at_dollar_def nth_append)
  then show ?thesis using assms(1) run by (simp add: match_here_def backtrack_top)
qed

text \<open>
  A string made of a part \<open>p\<close> that does not end in a digit, a non-empty run \<open>d\<close> of
  digits and then nothing or one newline: the first match is the run \<open>d\<close>.
\<close>

lemma re_search_run:
  assumes "d \<noteq> []" "\<forall>c\<in>set d. is_digit c" "t = [] \<or> t = [CHR 0x0A]"
    and "p = [] \<or> \<not> is_digit (last p)"
  shows "re_search (p @ d @ t) = Some (length p, length p + length d)"
proof -
  let ?s = "p @ d @ t"
  have "[0..<Suc (length ?s)] = [0..<length p] @ length p # [Suc (length p)..<Suc (length ?s)]"
    by (rule upt_split_at) simp
  moreover have "\<And>i. i \<in> set [0..<length p] \<Longrightarrow> match_here ?s i = None"
    using match_here_in_prefix [of _ p "d @ t"] assms(1,4) by auto
  ultimately have "re_search ?s = search_from ?s (length p # [Suc (length p)..<Suc (length ?s)])"
    unfolding re_search_def using search_from_skip by metis
  then show ?thesis using match_here_at_run [OF assms(1,2,3)] by simp
qed

lemma split_prefix_num_run:
  assumes "d \<noteq> []" "\<forall>c\<in>set d. is_digit c" "t = [] \<or> t = [CHR 0x0A]"
    and "p = [] \<or> \<not> is_digit (last p)"
  shows "split_prefix_num (p @ d @ t) = (p, Some (py_int d), length d)"
  using re_search_run [OF assms] by (simp add: split_prefix_num_def)



lemma run_digit_before:
  assumes "0 < j" "j \<le> length (takeWhile is_digit (drop i s))"
  shows "i + j \<le> length s \<and> is_digit (s ! (i + j - 1))"
proof -
  let ?r = "takeWhile is_digit (drop i s)"
  have len: "length ?r \<le> length s - i"
    using length_takeWhile_le [of is_digit "drop i s"] by simp
  then have b: "i + j \<le> length s" using assms by linarith
  have lt: "j - 1 < length ?r" using assms by linarith
  then have "?r ! (j - 1) \<in> set ?r" by (rule nth_mem)
  then have "is_digit (?r ! (j - 1))" by (rule set_takeWhileD [THEN conjunct2])
  moreover have "?r ! (j - 1) = drop i s ! (j - 1)" using lt by (rule takeWhile_nth)
  moreover have "drop i s ! (j - 1) = s ! (i + (j - 1))" using b by simp
  moreover have "i + (j - 1) = i + j - 1" using assms(1) by simp
  ultimately show ?thesis using b by simp
qed

text \<open>
  A string that ends neither in a digit nor in a digit followed by a newline has no match
  at any position.
\<close>

lemma match_here_none:
  assumes "\<not> ends_in_digit s"
    and "\<not> (s \<noteq> [] \<and> last s = CHR 0x0A \<and> ends_in_digit (butlast s))"
  shows "match_here s i = None"
  unfolding match_here_def
proof (rule backtrack_none)
  fix j assume j: "0 < j" "j \<le> length (takeWhile is_digit (drop i s))"
  have b: "i + j \<le> length s" and dig: "is_digit (s ! (i + j - 1))"
    using run_digit_before [OF j] by simp_all
  show "\<not> at_dollar s (i + j)"
  proof
    assume "at_dollar s (i + j)"
    then consider "i + j = length s" | "Suc (i + j) = length s" "s ! (i + j) = CHR 0x0A"
      by (auto simp: at_dollar_def)
    then show False
    proof cases
      case 1
      then have "s \<noteq> []" using j(1) by auto
      moreover from this have "last s = s ! (i + j - 1)" using 1 by (simp add: last_conv_nth)
      ultimately show False using dig assms(1) by (simp add: ends_in_digit_def)
    next
      case 2
      then have ne: "s \<noteq> []" by auto
      have l: "last s = CHR 0x0A" using 2 ne by (metis last_conv_nth diff_Suc_1)
      have bl: "length (butlast s) = i + j" using 2 by simp
      have bne: "butlast s \<noteq> []"
      proof
        assume "butlast s = []"
        then have "length (butlast s) = 0" by simp
        then show False using bl j(1) by linarith
      qed
      have "last (butlast s) = butlast s ! (i + j - 1)"
        using bne bl by (simp add: last_conv_nth)
      also have "\<dots> = s ! (i + j - 1)" using bl j(1) by (simp add: nth_butlast)
      finally have "ends_in_digit (butlast s)" using dig bne by (simp add: ends_in_digit_def)
      then show False using assms(2) ne l by simp
    qed
  qed
qed

lemma split_prefix_num_none:
  assumes "\<not> ends_in_digit s"
    and "\<not> (s \<noteq> [] \<and> last s = CHR 0x0A \<and> ends_in_digit (butlast s))"
  shows "split_prefix_num s = (s, None, 0)"
proof -
  have "re_search s = None"
    unfolding re_search_def using match_here_none [OF assms] by (rule search_from_none)
  then show ?thesis by (simp add: split_prefix_num_def)
qed

lemma search_from_Some:
  "search_from s xs = Some (b, e) \<Longrightarrow> match_here s b = Some e"
  by (induction xs) (auto split: option.splits)

text \<open>Whatever is matched is a non-empty run of digits; number and width come from it.\<close>

lemma split_prefix_num_Some:
  assumes "split_prefix_num s = (p, Some n, w)"
  shows "\<exists>g. g \<noteq> [] \<and> (\<forall>c\<in>set g. is_digit c) \<and> n = py_int g \<and> w = length g"
proof -
  obtain b e where se: "re_search s = Some (b, e)"
    using assms by (auto simp: split_prefix_num_def split: option.splits)
  let ?r = "takeWhile is_digit (drop b s)"
  let ?g = "take (e - b) (drop b s)"
  have "backtrack s b (length ?r) = Some e"
    using se search_from_Some unfolding re_search_def match_here_def by blast
  then have be: "b < e" "e \<le> b + length ?r" using backtrack_Some by blast+
  have "?g = take (e - b) (take (length ?r) (drop b s))" using be by (simp add: min_def)
  also have "\<dots> = take (e - b) ?r" using takeWhile_eq_take [of is_digit "drop b s"] by simp
  finally have g: "?g = take (e - b) ?r" .
  have "set ?g \<subseteq> set ?r" unfolding g by (rule set_take_subset)
  then have dig: "\<forall>c\<in>set ?g. is_digit c" using set_takeWhileD by fastforce
  have "length ?g = e - b" unfolding g using be by simp
  then have ne: "?g \<noteq> []" using be by auto
  have "n = py_int ?g" "w = length ?g" using assms se by (auto simp: split_prefix_num_def Let_def)
  then show ?thesis using ne dig by blast
qed

lemma digits_decompose:
  "s = strip_digits s @ trailing_digits s"
  unfolding strip_digits_def trailing_digits_def
  by (metis rev_append rev_rev_ident takeWhile_dropWhile_id)

lemma trailing_digits_all: "\<forall>c\<in>set (trailing_digits s). is_digit c"
  unfolding trailing_digits_def using set_takeWhileD by fastforce

lemma strip_digits_last: "strip_digits s = [] \<or> \<not> is_digit (last (strip_digits s))"
  unfolding strip_digits_def
  by (metis hd_dropWhile last_rev rev_is_Nil_conv)

lemma trailing_digits_nonempty: "trailing_digits s \<noteq> [] \<longleftrightarrow> ends_in_digit s"
  unfolding trailing_digits_def ends_in_digit_def
  by (cases s rule: rev_cases) auto

text \<open>
  For a string that ends in a digit the function returns the string without its maximal
  trailing run of digits, the value of the run and its length.
\<close>

lemma split_prefix_num_trailing:
  assumes "ends_in_digit s"
  shows "split_prefix_num s = (strip_digits s, Some (py_int (trailing_digits s)), length (trailing_digits s))"
proof -
  have "split_prefix_num (strip_digits s @ trailing_digits s @ []) 
          = (strip_digits s, Some (py_int (trailing_digits s)), length (trailing_digits s))"
    using assms trailing_digits_nonempty trailing_digits_all strip_digits_last
    by (intro split_prefix_num_run) auto
  then show ?thesis using digits_decompose [of s] by simp
qed



lemma split_prefix_num_before_newline:
  assumes "s \<noteq> []" "last s = CHR 0x0A" "ends_in_digit (butlast s)"
  shows "split_prefix_num s =
           (strip_digits (butlast s), Some (py_int (trailing_digits (butlast s))),
            length (trailing_digits (butlast s)))"
proof -
  let ?b = "butlast s"
  have "s = ?b @ [CHR 0x0A]" using assms(1,2) append_butlast_last_id [of s] by simp
  also have "?b = strip_digits ?b @ trailing_digits ?b" by (rule digits_decompose)
  finally have s: "s = strip_digits ?b @ trailing_digits ?b @ [CHR 0x0A]" by simp
  have "split_prefix_num (strip_digits ?b @ trailing_digits ?b @ [CHR 0x0A]) =
          (strip_digits ?b, Some (py_int (trailing_digits ?b)), length (trailing_digits ?b))"
    using assms(3) trailing_digits_nonempty trailing_digits_all strip_digits_last
    by (intro split_prefix_num_run) auto
  then show ?thesis using s by simp
qed

text \<open>The function finds a number exactly in the accepted strings.\<close>

lemma split_prefix_num_accepted:
  "fst (snd (split_prefix_num s)) \<noteq> None \<longleftrightarrow> accepted s"
proof (cases "ends_in_digit s")
  case True
  then show ?thesis using split_prefix_num_trailing by (simp add: accepted_def)
next
  case False
  show ?thesis
  proof (cases "s \<noteq> [] \<and> last s = CHR 0x0A \<and> ends_in_digit (butlast s)")
    case True
    then show ?thesis using split_prefix_num_before_newline by (simp add: accepted_def)
  next
    case no: False
    then show ?thesis using False split_prefix_num_none [of s] by (auto simp: accepted_def)
  qed
qed

text \<open>
  Claim C2 at the string made of \<^verbatim>\<open>a5\<close> and a newline. The string has
  no trailing run of digits, so the claim gives \<^verbatim>\<open>(s, None, 0)\<close>; the search finds the
  digit before the newline and the function returns \<^verbatim>\<open>('a', 5, 1)\<close>, whose prefix and
  digits no longer make up the string.
\<close>

theorem split_prefix_num_newline:
  "split_prefix_num [CHR ''a'', CHR ''5'', CHR 0x0A] = (''a'', Some 5, 1)
   \<and> \<not> ends_in_digit [CHR ''a'', CHR ''5'', CHR 0x0A]
   \<and> split_prefix_num [CHR ''a'', CHR ''5'', CHR 0x0A] \<noteq> ([CHR ''a'', CHR ''5'', CHR 0x0A], None, 0)"
  by code_simp

section \<open>Numbers and their decimal rendering\<close>

lemma py_int_snoc: "py_int (ds @ [c]) = 10 * py_int ds + digit_value c"
  by (simp add: py_int_def)

lemma digit_value_range: "is_digit c \<Longrightarrow> 0 \<le> digit_value c \<and> digit_value c \<le> 9"
  by (auto simp: is_digit_def digit_value_def)

lemma py_int_nonneg: "\<forall>c\<in>set ds. is_digit c \<Longrightarrow> 0 \<le> py_int ds"
proof (induction ds rule: rev_induct)
  case Nil
  show ?case by (simp add: py_int_def)
next
  case (snoc c ds)
  then have "0 \<le> py_int ds" "0 \<le> digit_value c" using digit_value_range by auto
  then show ?case by (simp add: py_int_snoc)
qed

lemma py_int_bound: "\<forall>c\<in>set ds. is_digit c \<Longrightarrow> py_int ds < 10 ^ length ds"
proof (induction ds rule: rev_induct)
  case Nil
  show ?case by (simp add: py_int_def)
next
  case (snoc c ds)
  then have "py_int ds + 1 \<le> 10 ^ length ds" "digit_value c \<le> 9" using digit_value_range by auto
  then have "10 * py_int ds + digit_value c < 10 * 10 ^ length ds" by linarith
  then show ?case by (simp add: py_int_snoc)
qed

lemma digit_char_table:
  "\<forall>m\<in>set [0..<10]. is_digit (digit_char m) \<and> digit_value (digit_char m) = int m
      \<and> (0 < m \<longrightarrow> digit_char m \<noteq> CHR ''0'')"
  by code_simp

lemma digit_char_digit: "n < 10 \<Longrightarrow> is_digit (digit_char n) \<and> digit_value (digit_char n) = int n"
  using digit_char_table by simp

lemma digit_char_nonzero: "0 < n \<Longrightarrow> n < 10 \<Longrightarrow> digit_char n \<noteq> CHR ''0''"
  using digit_char_table by simp

lemma str_nat_digits: "\<forall>c\<in>set (str_nat n). is_digit c"
proof (induction n rule: str_nat.induct)
  case (1 n)
  show ?case
  proof (cases "n < 10")
    case True
    then show ?thesis using digit_char_digit by (subst str_nat.simps) simp
  next
    case False
    have "n mod 10 < 10" by simp
    then have "is_digit (digit_char (n mod 10))" using digit_char_digit by blast
    then show ?thesis using False 1 by (subst str_nat.simps) simp
  qed
qed

lemma str_nat_nonempty: "str_nat n \<noteq> []"
  by (subst str_nat.simps) simp

text \<open>\<^verbatim>\<open>str\<close> writes the decimal digits of a number: reading them back gives the number.\<close>

lemma py_int_str_nat: "py_int (str_nat n) = int n"
proof (induction n rule: str_nat.induct)
  case (1 n)
  show ?case
  proof (cases "n < 10")
    case True
    then have "py_int [digit_char n] = int n" using digit_char_digit by (simp add: py_int_def)
    then show ?thesis using True by (subst str_nat.simps) simp
  next
    case False
    have "n mod 10 < 10" by simp
    then have "digit_value (digit_char (n mod 10)) = int (n mod 10)" using digit_char_digit by blast
    moreover have "py_int (str_nat (n div 10)) = int (n div 10)" using False 1 by simp
    moreover have "10 * int (n div 10) + int (n mod 10) = int n"
    proof -
      have "int (10 * (n div 10) + n mod 10) = int n" by simp
      then show ?thesis by (simp only: of_nat_add of_nat_mult of_nat_numeral)
    qed
    ultimately have "py_int (str_nat (n div 10) @ [digit_char (n mod 10)]) = int n"
      by (simp add: py_int_snoc)
    then show ?thesis using False by (subst str_nat.simps) simp
  qed
qed

lemma length_str_nat: "0 < w \<Longrightarrow> n < 10 ^ w \<Longrightarrow> length (str_nat n) \<le> w"
proof (induction n arbitrary: w rule: str_nat.induct)
  case (1 n)
  show ?case
  proof (cases "n < 10")
    case True
    then show ?thesis using "1.prems" by (subst str_nat.simps) simp
  next
    case False
    obtain v where w: "w = Suc v" using "1.prems"(1) by (cases w) auto
    have "v \<noteq> 0" using False "1.prems"(2) w by (cases v) auto
    moreover have "n div 10 < 10 ^ v" using "1.prems"(2) w by (simp add: less_mult_imp_div_less mult.commute)
    ultimately have "length (str_nat (n div 10)) \<le> v" using "1.IH" [OF False, of v] by simp
    then show ?thesis using False w by (subst str_nat.simps) simp
  qed
qed

lemma str_nat_no_leading_zero: "0 < n \<Longrightarrow> hd (str_nat n) \<noteq> CHR ''0''"
proof (induction n rule: str_nat.induct)
  case (1 n)
  show ?case
  proof (cases "n < 10")
    case True
    then show ?thesis using "1.prems" digit_char_nonzero [of n]
      by (subst str_nat.simps) simp
  next
    case False
    then have "0 < n div 10" by simp
    then have "hd (str_nat (n div 10)) \<noteq> CHR ''0''" using "1.IH" False by simp
    then show ?thesis using False str_nat_nonempty [of "n div 10"] by (subst str_nat.simps) simp
  qed
qed

text \<open>On the text of a non-negative number \<^verbatim>\<open>zfill\<close> is the padding of the specification.\<close>

lemma zfill_nonneg:
  assumes "0 \<le> i"
  shows "zfill (str_int i) width = zero_pad i width"
proof -
  let ?s = "str_nat (nat i)"
  have s: "str_int i = ?s" using assms by (simp add: str_int_def)
  obtain c rest where cr: "?s = c # rest" using str_nat_nonempty [of "nat i"] by (cases ?s) auto
  then have "is_digit c" using str_nat_digits [of "nat i"] by simp
  then have "c \<noteq> CHR ''+''" "c \<noteq> CHR ''-''" by (auto simp: is_digit_def)
  then show ?thesis unfolding s zfill_def zero_pad_def s cr by simp
qed

lemma length_zero_pad: "length (zero_pad i width) = max width (length (str_int i))"
  by (simp add: zero_pad_def)

lemma length_zero_pad_fits:
  assumes "0 \<le> i" "i < 10 ^ width" "0 < width"
  shows "length (zero_pad i width) = width"
proof -
  have "nat i < 10 ^ width" using assms(1,2) by (simp add: nat_less_iff)
  then have "length (str_nat (nat i)) \<le> width" using assms(3) length_str_nat by blast
  then show ?thesis using assms(1) by (simp add: length_zero_pad str_int_def)
qed



text \<open>
  Claim C10. A number returned by \<^verbatim>\<open>split_prefix_num\<close> is never negative. A minus sign
  in front of the trailing digits stays in the prefix, so \<^verbatim>\<open>a-5\<close> gives the prefix
  \<^verbatim>\<open>a-\<close> and the number 5. Both numbers of a range that \<^verbatim>\<open>expand_range\<close> accepts are
  natural numbers.
\<close>

theorem split_prefix_num_natural:
  "(split_prefix_num s = (p, Some n, w) \<longrightarrow> 0 \<le> n)
   \<and> (d \<noteq> [] \<and> (\<forall>c\<in>set d. is_digit c) \<longrightarrow>
        split_prefix_num (q @ ''-'' @ d) = (q @ ''-'', Some (py_int d), length d) \<and> 0 \<le> py_int d)
   \<and> (expand_range spec = Inr xs \<longrightarrow>
        (\<exists>left right pre n1 w1 n2 w2.
            split_dots spec = Some (left, right)
          \<and> split_prefix_num left = (pre, Some n1, w1)
          \<and> split_prefix_num right = (pre, Some n2, w2)
          \<and> 0 \<le> n1 \<and> 0 \<le> n2))"
proof (intro conjI impI)
  assume "split_prefix_num s = (p, Some n, w)"
  then obtain g where "\<forall>c\<in>set g. is_digit c" "n = py_int g"
    using split_prefix_num_Some by blast
  then show "0 \<le> n" using py_int_nonneg by blast
next
  assume d: "d \<noteq> [] \<and> (\<forall>c\<in>set d. is_digit c)"
  have "\<not> is_digit (last (q @ ''-''))" by (simp add: is_digit_def)
  then have "split_prefix_num ((q @ ''-'') @ d @ []) = (q @ ''-'', Some (py_int d), length d)"
    using d by (intro split_prefix_num_run) simp_all
  then show "split_prefix_num (q @ ''-'' @ d) = (q @ ''-'', Some (py_int d), length d)" by simp
  show "0 \<le> py_int d" using d py_int_nonneg by blast
next
  assume ok: "expand_range spec = Inr xs"
  then obtain left right where lr: "split_dots spec = Some (left, right)"
    by (auto simp: expand_range_def split: option.splits)
  obtain p1 o1 w1 where l: "split_prefix_num left = (p1, o1, w1)" by (cases "split_prefix_num left")
  obtain p2 o2 w2 where r: "split_prefix_num right = (p2, o2, w2)" by (cases "split_prefix_num right")
  obtain n1 n2 where n: "o1 = Some n1" "o2 = Some n2" "p1 = p2"
    using ok lr l r by (auto simp: expand_range_def split: option.splits if_splits)
  obtain g1 where g1: "\<forall>c\<in>set g1. is_digit c" "n1 = py_int g1"
    using split_prefix_num_Some l n by blast
  obtain g2 where g2: "\<forall>c\<in>set g2. is_digit c" "n2 = py_int g2"
    using split_prefix_num_Some r n by blast
  have "0 \<le> n1" "0 \<le> n2" using g1 g2 py_int_nonneg by blast+
  then show "\<exists>left right pre n1 w1 n2 w2.
            split_dots spec = Some (left, right)
          \<and> split_prefix_num left = (pre, Some n1, w1)
          \<and> split_prefix_num right = (pre, Some n2, w2)
          \<and> 0 \<le> n1 \<and> 0 \<le> n2"
    using lr l r n by blast
qed

theorem split_prefix_num_natural_witness:
  "split_prefix_num ''a-5'' = (''a-'', Some 5, 1) \<and> (0::int) \<le> 5"
proof -
  have d: "''5'' \<noteq> [] \<and> (\<forall>c\<in>set ''5''. is_digit c)" by (simp add: is_digit_def)
  have v: "py_int ''5'' = 5" by code_simp
  show ?thesis
    using split_prefix_num_natural [of "''a-5''" "''a-''" 5 1 "''5''" "''a''" "''a5..a7''" "[''a5'', ''a6'']"] d v
    by simp
qed

section \<open>Expansion of a range\<close>

text \<open>\<^verbatim>\<open>split_dots\<close> cuts at the first occurrence of the two dots.\<close>

lemma split_dots_first:
  "split_dots (l @ ''.'') = None \<Longrightarrow> split_dots (l @ ''..'' @ r) = Some (l, r)"
proof (induction l rule: split_dots.induct)
  case (1 a b cs)
  then show ?case by (auto split: if_splits)
next
  case 3
  show ?case by simp
next
  case (2 a)
  then show ?case by (auto split: if_splits)
qed

lemma split_dots_Some:
  "split_dots s = Some (l, r) \<Longrightarrow> s = l @ ''..'' @ r \<and> split_dots (l @ ''.'') = None"
proof (induction s arbitrary: l rule: split_dots.induct)
  case (1 a b cs)
  show ?case
  proof (cases "a = CHR ''.'' \<and> b = CHR ''.''")
    case True
    then show ?thesis using "1.prems" by auto
  next
    case False
    then obtain l' where l': "split_dots (b # cs) = Some (l', r)" "l = a # l'"
      using "1.prems" by auto
    then have ih: "b # cs = l' @ ''..'' @ r" "split_dots (l' @ ''.'') = None"
      using "1.IH" False by blast+
    show ?thesis
    proof (cases l')
      case Nil
      then show ?thesis using ih l' False by auto
    next
      case (Cons x xs)
      then show ?thesis using ih l' False by auto
    qed
  qed
qed simp_all

lemma split_dots_append_None:
  "split_dots xs = None \<Longrightarrow> split_dots ys = None \<Longrightarrow>
   xs = [] \<or> ys = [] \<or> last xs \<noteq> CHR ''.'' \<or> hd ys \<noteq> CHR ''.'' \<Longrightarrow>
   split_dots (xs @ ys) = None"
proof (induction xs rule: split_dots.induct)
  case (1 a b cs)
  then show ?case by (auto split: if_splits)
next
  case 3
  then show ?case by simp
next
  case (2 a)
  then show ?case by (cases ys) (auto split: if_splits)
qed

lemma split_dots_digits_dot:
  "\<forall>c\<in>set d. is_digit c \<Longrightarrow> split_dots (d @ ''.'') = None"
proof (induction d rule: split_dots.induct)
  case (1 a b cs)
  then have "a \<noteq> CHR ''.''" by (auto simp: is_digit_def)
  then show ?case using 1 by simp
next
  case 3
  show ?case by simp
next
  case (2 a)
  then have "a \<noteq> CHR ''.''" by (auto simp: is_digit_def)
  then show ?case by simp
qed

lemma split_dots_endpoint:
  assumes "split_dots p = None" "d \<noteq> []" "\<forall>c\<in>set d. is_digit c"
  shows "split_dots (p @ d @ ''..'' @ r) = Some (p @ d, r)"
proof -
  have "hd (d @ ''.'') \<noteq> CHR ''.''" using assms(2,3) by (cases d) (auto simp: is_digit_def)
  then have c: "p = [] \<or> d @ ''.'' = [] \<or> last p \<noteq> CHR ''.'' \<or> hd (d @ ''.'') \<noteq> CHR ''.''"
    by blast
  have "split_dots (p @ (d @ ''.'')) = None"
    using assms(1) split_dots_digits_dot [OF assms(3)] c by (rule split_dots_append_None)
  then have "split_dots ((p @ d) @ ''.'') = None" by simp
  then have "split_dots ((p @ d) @ ''..'' @ r) = Some (p @ d, r)" by (rule split_dots_first)
  then show ?thesis by simp
qed

lemma expand_range_valid:
  assumes "split_dots spec = Some (left, right)"
    and "split_prefix_num left = (p, Some n1, w1)"
    and "split_prefix_num right = (p, Some n2, w2)"
    and "n1 \<le> n2"
  shows "expand_range spec = Inr (map (\<lambda>i. p @ zfill (str_int i) (max w1 w2)) [n1..n2 - 1])"
  using assms by (simp add: expand_range_def)

lemma expand_range_padded_list:
  assumes "split_dots spec = Some (left, right)"
    and "split_prefix_num left = (p, Some n1, w1)"
    and "split_prefix_num right = (p, Some n2, w2)"
    and "n1 \<le> n2"
  shows "expand_range spec = Inr (map (\<lambda>i. p @ zero_pad i (max w1 w2)) [n1..n2 - 1])"
proof -
  obtain g where "(\<forall>c\<in>set g. is_digit c)" "n1 = py_int g"
    using split_prefix_num_Some [OF assms(2)] by blast
  then have "0 \<le> n1" using py_int_nonneg by blast
  then have "\<And>i. i \<in> set [n1..n2 - 1] \<Longrightarrow> zfill (str_int i) (max w1 w2) = zero_pad i (max w1 w2)"
    using zfill_nonneg by simp
  then have "map (\<lambda>i. p @ zfill (str_int i) (max w1 w2)) [n1..n2 - 1]
        = map (\<lambda>i. p @ zero_pad i (max w1 w2)) [n1..n2 - 1]" by simp
  then show ?thesis using expand_range_valid [OF assms] by simp
qed

text \<open>
  End to end, on a range written as a prefix and two runs of digits: the prefix has no
  two dots and does not end in a digit.
\<close>

lemma expand_range_endpoints:
  assumes "split_dots p = None" and "p = [] \<or> \<not> is_digit (last p)"
    and "d1 \<noteq> []" and "\<forall>c\<in>set d1. is_digit c"
    and "d2 \<noteq> []" and "\<forall>c\<in>set d2. is_digit c"
    and "py_int d1 \<le> py_int d2"
  shows "expand_range (p @ d1 @ ''..'' @ p @ d2) =
           Inr (map (\<lambda>i. p @ zero_pad i (max (length d1) (length d2)))
                  [py_int d1..py_int d2 - 1])"
proof -
  have 1: "split_dots (p @ d1 @ ''..'' @ p @ d2) = Some (p @ d1, p @ d2)"
    using assms(1,3,4) by (rule split_dots_endpoint)
  have "split_prefix_num (p @ d1 @ []) = (p, Some (py_int d1), length d1)"
    using assms(3,4,2) by (intro split_prefix_num_run) simp_all
  then have 2: "split_prefix_num (p @ d1) = (p, Some (py_int d1), length d1)" by simp
  have "split_prefix_num (p @ d2 @ []) = (p, Some (py_int d2), length d2)"
    using assms(5,6,2) by (intro split_prefix_num_run) simp_all
  then have 3: "split_prefix_num (p @ d2) = (p, Some (py_int d2), length d2)" by simp
  show ?thesis using 1 2 3 assms(7) by (rule expand_range_padded_list)
qed

text \<open>
  Claim C1, as amended. Whenever the specification has a first \<^verbatim>\<open>..\<close>, both sides parse
  to the same prefix \<open>p\<close> with numbers \<open>n1 \<le> n2\<close>, the result of \<^verbatim>\<open>expand_range\<close> is
  exactly the list of \<open>p\<close> followed by the zero-padded \<open>i\<close>, for \<open>i\<close> from \<open>n1\<close> up to but
  excluding \<open>n2\<close>, in this order; it has \<open>n2 - n1\<close> elements, and it is empty when the two
  numbers are equal. The instance \<^verbatim>\<open>000-000..000-010\<close> follows it.
\<close>

theorem expand_range_half_open:
  assumes "split_dots spec = Some (left, right)"
    and "split_prefix_num left = (p, Some n1, w1)"
    and "split_prefix_num right = (p, Some n2, w2)"
    and "n1 \<le> n2"
  shows "expand_range spec = Inr (map (\<lambda>i. p @ zero_pad i (max w1 w2)) [n1..n2 - 1])
         \<and> (\<forall>xs. expand_range spec = Inr xs \<longrightarrow> length xs = nat (n2 - n1))
         \<and> (n1 = n2 \<longrightarrow> expand_range spec = Inr [])"
proof -
  have e: "expand_range spec = Inr (map (\<lambda>i. p @ zero_pad i (max w1 w2)) [n1..n2 - 1])"
    by (rule expand_range_padded_list [OF assms])
  moreover have "length (map (\<lambda>i. p @ zero_pad i (max w1 w2)) [n1..n2 - 1]) = nat (n2 - n1)"
    by simp
  ultimately show ?thesis by auto
qed

theorem expand_range_half_open_witness:
  "expand_range ''000-000..000-010'' =
     Inr [''000-000'', ''000-001'', ''000-002'', ''000-003'', ''000-004'',
          ''000-005'', ''000-006'', ''000-007'', ''000-008'', ''000-009'']"
proof -
  have 1: "split_dots ''000-000..000-010'' = Some (''000-000'', ''000-010'')" by simp
  have 2: "split_prefix_num ''000-000'' = (''000-'', Some 0, 3)" by code_simp
  have 3: "split_prefix_num ''000-010'' = (''000-'', Some 10, 3)" by code_simp
  have 4: "(0::int) \<le> 10" by simp
  have 5: "map (\<lambda>i. ''000-'' @ zero_pad i (max 3 3)) [0..10 - 1] =
     [''000-000'', ''000-001'', ''000-002'', ''000-003'', ''000-004'',
          ''000-005'', ''000-006'', ''000-007'', ''000-008'', ''000-009'']" by code_simp
  show ?thesis using expand_range_half_open [OF 1 2 3 4] unfolding 5 by simp
qed

text \<open>
  The example \<^verbatim>\<open>a..a\<close> of claim C1 has no number on either side: it is rejected, it
  does not yield the empty list.
\<close>

theorem expand_range_letters_counterexample:
  "expand_range ''a..a'' = Inl EndpointsMustEndWithNumber \<and> expand_range ''a..a'' \<noteq> Inr []"
  by code_simp

text \<open>
  Claim C4. Every number of the output is written in decimal and padded on the left with
  zeros to the width \<open>max w1 w2\<close>: the element for \<open>i\<close> is the prefix, the zeros and
  \<^verbatim>\<open>str(i)\<close>; the decimal text reads back as \<open>i\<close>, and with the prefix it is exactly
  \<open>max w1 w2\<close> characters longer than the prefix. The padding itself never cuts: a text
  at least as long as the width is returned whole. For \<^verbatim>\<open>a1..a100\<close> the 99 elements run
  from \<^verbatim>\<open>a001\<close> to \<^verbatim>\<open>a099\<close>.
\<close>

theorem expand_range_zero_padded:
  assumes "split_dots spec = Some (left, right)"
    and "split_prefix_num left = (p, Some n1, w1)"
    and "split_prefix_num right = (p, Some n2, w2)"
    and "n1 \<le> i" and "i < n2"
  shows "(\<exists>xs. expand_range spec = Inr xs \<and> nat (i - n1) < length xs
           \<and> xs ! nat (i - n1) =
               p @ replicate (max w1 w2 - length (str_int i)) (CHR ''0'') @ str_int i
           \<and> length (xs ! nat (i - n1)) = length p + max w1 w2
           \<and> py_int (str_int i) = i)
     \<and> (0 \<le> j \<longrightarrow> zfill (str_int j) w =
           replicate (w - length (str_int j)) (CHR ''0'') @ str_int j)
     \<and> (w \<le> length (str_int j) \<longrightarrow> zfill (str_int j) w = str_int j)"
proof -
  let ?w = "max w1 w2"
  let ?xs = "map (\<lambda>i. p @ zero_pad i ?w) [n1..n2 - 1]"
  have le: "n1 \<le> n2" using assms(4,5) by simp
  have e: "expand_range spec = Inr ?xs"
    by (rule expand_range_padded_list [OF assms(1,2,3) le])
  obtain g1 where g1: "\<forall>c\<in>set g1. is_digit c" "n1 = py_int g1"
    using split_prefix_num_Some [OF assms(2)] by blast
  obtain g2 where g2: "g2 \<noteq> []" "\<forall>c\<in>set g2. is_digit c" "n2 = py_int g2" "w2 = length g2"
    using split_prefix_num_Some [OF assms(3)] by blast
  have i0: "0 \<le> i" using py_int_nonneg [OF g1(1)] g1(2) assms(4) by simp
  have "n2 < 10 ^ w2" using py_int_bound [OF g2(2)] g2(3,4) by simp
  also have "(10::int) ^ w2 \<le> 10 ^ ?w" by (rule power_increasing) simp_all
  finally have ib: "i < 10 ^ ?w" using assms(5) by simp
  have "0 < w2" using g2(1,4) by simp
  then have wpos: "0 < ?w" by (simp add: less_max_iff_disj)
  have k: "nat (i - n1) < length ?xs" using assms(4,5) by simp
  have "[n1..n2 - 1] ! nat (i - n1) = n1 + int (nat (i - n1))"
    using assms(4,5) by (intro nth_upto) simp
  then have nth: "?xs ! nat (i - n1) = p @ zero_pad i ?w" using k assms(4) by simp
  have len: "length (p @ zero_pad i ?w) = length p + ?w"
    using length_zero_pad_fits [OF i0 ib wpos] by simp
  have rt: "py_int (str_int i) = i" using i0 by (simp add: str_int_def py_int_str_nat)
  have zp: "zero_pad i ?w = replicate (?w - length (str_int i)) (CHR ''0'') @ str_int i"
    by (simp add: zero_pad_def)
  have a: "\<exists>xs. expand_range spec = Inr xs \<and> nat (i - n1) < length xs
           \<and> xs ! nat (i - n1) =
               p @ replicate (max w1 w2 - length (str_int i)) (CHR ''0'') @ str_int i
           \<and> length (xs ! nat (i - n1)) = length p + max w1 w2
           \<and> py_int (str_int i) = i"
  proof (intro exI [of _ ?xs] conjI)
    show "expand_range spec = Inr ?xs" by (rule e)
    show "nat (i - n1) < length ?xs" by (rule k)
    show "?xs ! nat (i - n1) = p @ replicate (?w - length (str_int i)) (CHR ''0'') @ str_int i"
      using nth zp by simp
    show "length (?xs ! nat (i - n1)) = length p + ?w" using nth len by simp
    show "py_int (str_int i) = i" by (rule rt)
  qed
  have b: "0 \<le> j \<longrightarrow> zfill (str_int j) w =
           replicate (w - length (str_int j)) (CHR ''0'') @ str_int j"
    using zfill_nonneg [of j w] by (simp add: zero_pad_def)
  have c: "w \<le> length (str_int j) \<longrightarrow> zfill (str_int j) w = str_int j"
    by (simp add: zfill_def)
  show ?thesis using a b c by blast
qed

theorem expand_range_zero_padded_witness:
  "\<exists>xs. expand_range ''a1..a100'' = Inr xs \<and> length xs = 99
     \<and> xs ! 0 = ''a001'' \<and> xs ! 98 = ''a099'' \<and> zfill ''1234'' 3 = ''1234''"
proof -
  have 1: "split_dots ''a1..a100'' = Some (''a1'', ''a100'')" by simp
  have 2: "split_prefix_num ''a1'' = (''a'', Some 1, 1)" by code_simp
  have 3: "split_prefix_num ''a100'' = (''a'', Some 100, 3)" by code_simp
  have s1: "''a'' @ replicate (max 1 3 - length (str_int 1)) (CHR ''0'') @ str_int 1 = ''a001''"
    by code_simp
  have s99: "''a'' @ replicate (max 1 3 - length (str_int 99)) (CHR ''0'') @ str_int 99 = ''a099''"
    by code_simp
  have s1234: "str_int 1234 = ''1234''" "3 \<le> length (str_int 1234)" by code_simp+
  obtain xs where xs: "expand_range ''a1..a100'' = Inr xs" "length xs = 99"
    using expand_range_padded_list [OF 1 2 3] by auto
  have "xs ! 0 = ''a001''"
    using expand_range_zero_padded [OF 1 2 3, of 1 1234 3] xs(1) unfolding s1 by simp
  moreover have "xs ! 98 = ''a099''"
    using expand_range_zero_padded [OF 1 2 3, of 99 1234 3] xs(1) unfolding s99 by simp
  moreover have "zfill ''1234'' 3 = ''1234''"
    using expand_range_zero_padded [OF 1 2 3, of 1 1234 3] s1234 by simp
  ultimately show ?thesis using xs by blast
qed

text \<open>The whole result for \<^verbatim>\<open>a1..a100\<close>.\<close>

lemma expand_range_widening:
  "expand_range ''a1..a100'' =
     Inr [
          ''a001'', ''a002'', ''a003'', ''a004'', ''a005'', ''a006'', ''a007'', ''a008'',
          ''a009'', ''a010'', ''a011'', ''a012'', ''a013'', ''a014'', ''a015'', ''a016'',
          ''a017'', ''a018'', ''a019'', ''a020'', ''a021'', ''a022'', ''a023'', ''a024'',
          ''a025'', ''a026'', ''a027'', ''a028'', ''a029'', ''a030'', ''a031'', ''a032'',
          ''a033'', ''a034'', ''a035'', ''a036'', ''a037'', ''a038'', ''a039'', ''a040'',
          ''a041'', ''a042'', ''a043'', ''a044'', ''a045'', ''a046'', ''a047'', ''a048'',
          ''a049'', ''a050'', ''a051'', ''a052'', ''a053'', ''a054'', ''a055'', ''a056'',
          ''a057'', ''a058'', ''a059'', ''a060'', ''a061'', ''a062'', ''a063'', ''a064'',
          ''a065'', ''a066'', ''a067'', ''a068'', ''a069'', ''a070'', ''a071'', ''a072'',
          ''a073'', ''a074'', ''a075'', ''a076'', ''a077'', ''a078'', ''a079'', ''a080'',
          ''a081'', ''a082'', ''a083'', ''a084'', ''a085'', ''a086'', ''a087'', ''a088'',
          ''a089'', ''a090'', ''a091'', ''a092'', ''a093'', ''a094'', ''a095'', ''a096'',
          ''a097'', ''a098'', ''a099'']"
  by code_simp

text \<open>
  \<^verbatim>\<open>expand_range\<close> raises exactly when there are no two dots, or a side is not accepted,
  or the prefixes differ, or the left number is the greater one.
\<close>

lemma expand_range_raises_iff:
  "(\<exists>err. expand_range spec = Inl err) \<longleftrightarrow>
     (case split_dots spec of
        None \<Rightarrow> True
      | Some (left, right) \<Rightarrow>
          \<not> accepted left \<or> \<not> accepted right
          \<or> fst (split_prefix_num left) \<noteq> fst (split_prefix_num right)
          \<or> (\<exists>n1 n2. fst (snd (split_prefix_num left)) = Some n1
                    \<and> fst (snd (split_prefix_num right)) = Some n2 \<and> n2 < n1))"
proof (cases "split_dots spec")
  case None
  then show ?thesis by (simp add: expand_range_def)
next
  case (Some lr)
  obtain left right where lr: "lr = (left, right)" by (cases lr)
  obtain p1 o1 w1 where l: "split_prefix_num left = (p1, o1, w1)" by (cases "split_prefix_num left")
  obtain p2 o2 w2 where r: "split_prefix_num right = (p2, o2, w2)" by (cases "split_prefix_num right")
  have al: "accepted left \<longleftrightarrow> o1 \<noteq> None" using split_prefix_num_accepted [of left] l by simp
  have ar: "accepted right \<longleftrightarrow> o2 \<noteq> None" using split_prefix_num_accepted [of right] r by simp
  show ?thesis using Some lr l r al ar
    by (auto simp: expand_range_def split: option.splits)
qed

text \<open>
  Claim C3 at the string made of \<^verbatim>\<open>a1\<close>, a newline and \<^verbatim>\<open>..a5\<close>. Its left side ends with the newline and
  so has no trailing run of digits; the claim makes this an error. The function returns
  the four names \<^verbatim>\<open>a1\<close> to \<^verbatim>\<open>a4\<close>.
\<close>

theorem expand_range_newline:
  "split_dots [CHR ''a'', CHR ''1'', CHR 0x0A, CHR ''.'', CHR ''.'', CHR ''a'', CHR ''5'']
     = Some ([CHR ''a'', CHR ''1'', CHR 0x0A], ''a5'')
   \<and> \<not> ends_in_digit [CHR ''a'', CHR ''1'', CHR 0x0A]
   \<and> expand_range [CHR ''a'', CHR ''1'', CHR 0x0A, CHR ''.'', CHR ''.'', CHR ''a'', CHR ''5'']
     = Inr [''a1'', ''a2'', ''a3'', ''a4'']"
  by code_simp

section \<open>Selection of the files\<close>

lemma split_sep_head: "\<exists>ts. split_sep sep rel = takeWhile (\<lambda>c. c \<noteq> sep) rel # ts"
  by (induction rel) auto

lemma top_segment_takeWhile: "top_segment sep rel = takeWhile (\<lambda>c. c \<noteq> sep) rel"
  using split_sep_head [of sep rel] by (auto simp: top_segment_def)

lemma top_segment_whole: "sep \<notin> set rel \<Longrightarrow> top_segment sep rel = rel"
  by (auto simp: top_segment_takeWhile takeWhile_eq_all_conv)

text \<open>The loop computes a filter; what was collected before stays in front.\<close>

lemma filter_loop_filter:
  "filter_loop os root allowed acc ps =
     acc @ filter (\<lambda>p. top_segment (os_sep os) (os_relpath os p root) \<in> allowed) ps"
  by (induction ps arbitrary: acc) (simp_all add: Let_def)

text \<open>
  Claim C6. With a range that expands to a non-empty list of names, the selection keeps
  exactly the files whose path relative to the input root starts with a segment that is
  one of the names; the segment is the text up to the first separator, and the whole
  relative path when it has no separator (a file directly in the root). The files keep
  their order, and each is kept as often as it was found.
\<close>

theorem select_meshes_retains:
  assumes "args_subdirs args = Some sd" and "sd \<noteq> []"
    and "expand_range (strip sd) = Inr names" and "names \<noteq> []"
  shows "select_meshes os args meshes_path =
           Inr (filter (\<lambda>p. takeWhile (\<lambda>c. c \<noteq> os_sep os) (os_relpath os p (args_input args))
                             \<in> set names) meshes_path)
         \<and> (os_sep os \<notin> set rel \<longrightarrow> top_segment (os_sep os) rel = rel)
         \<and> (\<forall>js. select_meshes os args meshes_path = Inr js \<longrightarrow>
               count_list js q =
                 (if top_segment (os_sep os) (os_relpath os q (args_input args)) \<in> set names
                  then count_list meshes_path q else 0))"
proof -
  let ?keep = "\<lambda>p. top_segment (os_sep os) (os_relpath os p (args_input args)) \<in> set names"
  have s: "select_meshes os args meshes_path = Inr (filter ?keep meshes_path)"
    using assms by (simp add: select_meshes_def filter_loop_filter)
  have c: "count_list (filter ?keep meshes_path) q = (if ?keep q then count_list meshes_path q else 0)"
    by (induction meshes_path) auto
  show ?thesis using s c top_segment_whole by (simp add: top_segment_takeWhile)
qed

theorem select_meshes_retains_witness:
  "select_meshes example_os (example_args (Some ''000..002''))
     [''in/000/a.glb'', ''in/001'', ''in/x.obj'', ''in/001/b/c.obj'', ''in/002/d.fbx'', ''in/000/a.glb'']
   = Inr [''in/000/a.glb'', ''in/001'', ''in/001/b/c.obj'', ''in/000/a.glb'']"
proof -
  have 1: "args_subdirs (example_args (Some ''000..002'')) = Some ''000..002''"
    by (simp add: example_args_def)
  have 2: "''000..002'' \<noteq> []" by simp
  have 3: "expand_range (strip ''000..002'') = Inr [''000'', ''001'']" by code_simp
  have 4: "[''000'', ''001''] \<noteq> []" by simp
  have 5: "filter (\<lambda>p. takeWhile (\<lambda>c. c \<noteq> os_sep example_os)
                 (os_relpath example_os p (args_input (example_args (Some ''000..002''))))
               \<in> set [''000'', ''001''])
        [''in/000/a.glb'', ''in/001'', ''in/x.obj'', ''in/001/b/c.obj'', ''in/002/d.fbx'', ''in/000/a.glb'']
     = [''in/000/a.glb'', ''in/001'', ''in/001/b/c.obj'', ''in/000/a.glb'']"
    by (simp add: example_os_def example_args_def)
  have "select_meshes example_os (example_args (Some ''000..002''))
          [''in/000/a.glb'', ''in/001'', ''in/x.obj'', ''in/001/b/c.obj'', ''in/002/d.fbx'', ''in/000/a.glb'']
        = Inr (filter (\<lambda>p. takeWhile (\<lambda>c. c \<noteq> os_sep example_os)
                 (os_relpath example_os p (args_input (example_args (Some ''000..002''))))
               \<in> set [''000'', ''001''])
          [''in/000/a.glb'', ''in/001'', ''in/x.obj'', ''in/001/b/c.obj'', ''in/002/d.fbx'', ''in/000/a.glb''])"
    by (rule select_meshes_retains [OF 1 2 3 4, THEN conjunct1])
  then show ?thesis by (simp only: 5)
qed

text \<open>
  Claim C7. Filtering a list that was already filtered with the same allowed set changes
  nothing, for the loop itself and for the selection as a whole.
\<close>

theorem filter_idempotent:
  "filter_loop os root allowed [] (filter_loop os root allowed [] ps)
     = filter_loop os root allowed [] ps
   \<and> (select_meshes os args ps = Inr js \<longrightarrow> select_meshes os args js = Inr js)"
proof
  show "filter_loop os root allowed [] (filter_loop os root allowed [] ps)
     = filter_loop os root allowed [] ps"
    by (simp add: filter_loop_filter)
  show "select_meshes os args ps = Inr js \<longrightarrow> select_meshes os args js = Inr js"
    by (auto simp: select_meshes_def filter_loop_filter Let_def
             split: option.splits sum.splits if_splits)
qed

theorem filter_idempotent_witness:
  "select_meshes example_os (example_args (Some ''000..002''))
     [''in/000/a.glb'', ''in/001'', ''in/001/b/c.obj'', ''in/000/a.glb'']
   = Inr [''in/000/a.glb'', ''in/001'', ''in/001/b/c.obj'', ''in/000/a.glb'']"
proof -
  have e: "expand_range (strip ''000..002'') = Inr [''000'', ''001'']" by code_simp
  have "select_meshes example_os (example_args (Some ''000..002''))
          [''in/000/a.glb'', ''in/x.obj'', ''in/001'', ''in/001/b/c.obj'', ''in/000/a.glb'']
        = Inr [''in/000/a.glb'', ''in/001'', ''in/001/b/c.obj'', ''in/000/a.glb'']"
    by (simp add: select_meshes_def e filter_loop_filter top_segment_takeWhile
          example_os_def example_args_def)
  then show ?thesis by (rule filter_idempotent [THEN conjunct2, THEN mp])
qed

section \<open>The conversion loop\<close>

lemma convert_loop_events:
  "convert_loop os args run_convert ms st = (evs, res, st') \<Longrightarrow>
   \<exists>k\<le>length ms. evs = map (\<lambda>m. Converted m (dest_path_of os args m)) (take k ms)
                  \<and> (res = None \<longrightarrow> k = length ms)"
proof (induction ms arbitrary: st evs res st')
  case Nil
  then show ?case by simp
next
  case (Cons m ms)
  obtain r st1 where step: "run_convert m (dest_path_of os args m) st = (r, st1)"
    by (cases "run_convert m (dest_path_of os args m) st")
  show ?case
  proof (cases r)
    case (Some exn)
    then have "evs = [Converted m (dest_path_of os args m)]" "res = Some exn"
      using Cons.prems step by (simp_all add: Let_def)
    then show ?thesis by (intro exI [of _ 1]) simp
  next
    case None
    obtain evs1 res1 st2 where rest: "convert_loop os args run_convert ms st1 = (evs1, res1, st2)"
      by (cases "convert_loop os args run_convert ms st1")
    then have eq: "evs = Converted m (dest_path_of os args m) # evs1" "res = res1"
      using Cons.prems step None by (simp_all add: Let_def)
    obtain k where k: "k \<le> length ms"
        "evs1 = map (\<lambda>m. Converted m (dest_path_of os args m)) (take k ms)"
        "res1 = None \<longrightarrow> k = length ms"
      using Cons.IH [OF rest] by blast
    show ?thesis using eq k by (intro exI [of _ "Suc k"]) simp
  qed
qed



text \<open>Files that convert without an exception can be split off the front of the loop.\<close>

lemma convert_loop_append:
  "convert_loop os args run_convert pre st = (evs0, None, s0) \<Longrightarrow>
   convert_loop os args run_convert (pre @ rest) st =
     (case convert_loop os args run_convert rest s0 of (evs, r, s) \<Rightarrow> (evs0 @ evs, r, s))"
proof (induction pre arbitrary: st evs0)
  case Nil
  then show ?case by (simp split: prod.splits)
next
  case (Cons m pre)
  obtain r st1 where step: "run_convert m (dest_path_of os args m) st = (r, st1)"
    by (cases "run_convert m (dest_path_of os args m) st")
  obtain evs1 res1 st2 where rest: "convert_loop os args run_convert pre st1 = (evs1, res1, st2)"
    by (cases "convert_loop os args run_convert pre st1")
  have r: "r = None" using Cons.prems step by (cases r) (simp_all add: Let_def)
  then have e: "evs0 = Converted m (dest_path_of os args m) # evs1" "res1 = None" "st2 = s0"
    using Cons.prems step rest by (simp_all add: Let_def)
  have "convert_loop os args run_convert (pre @ rest) st1 =
     (case convert_loop os args run_convert rest s0 of (evs, r, s) \<Rightarrow> (evs1 @ evs, r, s))"
    using Cons.IH rest e by simp
  then show ?case using step r e by (simp add: Let_def split: prod.splits)
qed

text \<open>
  Claim C5. After the runner, \<^verbatim>\<open>builtins.print\<close> is what it was before, whatever the
  converter did and whether or not it raised. When the files before \<open>m\<close> convert and the
  call for \<open>m\<close> raises, the runner ends with that same exception, with the state the call
  left behind and with \<^verbatim>\<open>builtins.print\<close> put back; the files after \<open>m\<close> are not touched.
\<close>

theorem run_batch_restores_print:
  "builtins_print (snd (snd (run_batch os args tqdm_write run_convert meshes_path st)))
     = builtins_print st
   \<and> (convert_loop os args run_convert pre (st\<lparr>builtins_print := tqdm_write\<rparr>) = (evs0, None, s0)
        \<and> run_convert m (dest_path_of os args m) s0 = (Some exn, s1)
      \<longrightarrow> snd (run_batch os args tqdm_write run_convert (pre @ m # post) st)
            = (Some exn, s1\<lparr>builtins_print := builtins_print st\<rparr>))"
proof (intro conjI impI)
  show "builtins_print (snd (snd (run_batch os args tqdm_write run_convert meshes_path st)))
     = builtins_print st"
    by (simp add: run_batch_def Let_def split: prod.splits)
next
  assume a: "convert_loop os args run_convert pre (st\<lparr>builtins_print := tqdm_write\<rparr>) = (evs0, None, s0)
        \<and> run_convert m (dest_path_of os args m) s0 = (Some exn, s1)"
  then have "convert_loop os args run_convert (pre @ m # post) (st\<lparr>builtins_print := tqdm_write\<rparr>)
      = (evs0 @ [Converted m (dest_path_of os args m)], Some exn, s1)"
    using convert_loop_append [of os args run_convert pre _ evs0 s0 "m # post"]
    by (simp add: Let_def)
  then show "snd (run_batch os args tqdm_write run_convert (pre @ m # post) st)
            = (Some exn, s1\<lparr>builtins_print := builtins_print st\<rparr>)"
    by (simp add: run_batch_def Let_def)
qed

theorem run_batch_restores_print_witness:
  "snd (run_batch example_os (example_args None) TqdmWrite example_convert
     [''in/000/a.glb'', ''in/001/bad.obj'', ''in/002/c.fbx'']
     \<lparr>builtins_print = BuiltinPrint, world = []\<rparr>)
   = (Some ''cannot convert'',
      \<lparr>builtins_print = BuiltinPrint, world = [(''in/000/a.glb'', ''out/000/a/a.usd'')]\<rparr>)"
proof -
  let ?st = "\<lparr>builtins_print = BuiltinPrint, world = []\<rparr> :: (printer, (string \<times> string) list) interp"
  let ?s0 = "\<lparr>builtins_print = TqdmWrite, world = [(''in/000/a.glb'', ''out/000/a/a.usd'')]\<rparr>
               :: (printer, (string \<times> string) list) interp"
  let ?s1 = "\<lparr>builtins_print = OtherPrint, world = [(''in/000/a.glb'', ''out/000/a/a.usd'')]\<rparr>
               :: (printer, (string \<times> string) list) interp"
  have d1: "dest_path_of example_os (example_args None) ''in/000/a.glb'' = ''out/000/a/a.usd''"
    by (simp add: dest_path_of_def example_os_def example_args_def)
  have 1: "convert_loop example_os (example_args None) example_convert [''in/000/a.glb'']
             (?st\<lparr>builtins_print := TqdmWrite\<rparr>)
           = ([Converted ''in/000/a.glb'' ''out/000/a/a.usd''], None, ?s0)"
    by (simp add: d1 example_convert_def Let_def)
  have 2: "example_convert ''in/001/bad.obj''
             (dest_path_of example_os (example_args None) ''in/001/bad.obj'') ?s0
           = (Some ''cannot convert'', ?s1)"
    by (simp add: example_convert_def)
  have "snd (run_batch example_os (example_args None) TqdmWrite example_convert
          ([''in/000/a.glb''] @ ''in/001/bad.obj'' # [''in/002/c.fbx'']) ?st)
        = (Some ''cannot convert'', ?s1\<lparr>builtins_print := builtins_print ?st\<rparr>)"
    using run_batch_restores_print [THEN conjunct2, rule_format, OF conjI, OF 1 2] .
  then show ?thesis by simp
qed

section \<open>An empty range\<close>

text \<open>
  When no call raises, the state after the loop is the state obtained by running the
  converter on the files one after the other, in the order of the list.
\<close>

lemma convert_loop_fold:
  "convert_loop os args run_convert ms st = (evs, None, st') \<Longrightarrow>
   st' = fold (\<lambda>m s. snd (run_convert m (dest_path_of os args m) s)) ms st"
proof (induction ms arbitrary: st evs)
  case Nil
  then show ?case by simp
next
  case (Cons m ms)
  obtain r st1 where step: "run_convert m (dest_path_of os args m) st = (r, st1)"
    by (cases "run_convert m (dest_path_of os args m) st")
  obtain evs1 res1 st2 where rest: "convert_loop os args run_convert ms st1 = (evs1, res1, st2)"
    by (cases "convert_loop os args run_convert ms st1")
  have r: "r = None" using Cons.prems step by (cases r) (simp_all add: Let_def)
  then have "res1 = None" "st2 = st'" using Cons.prems step rest by (simp_all add: Let_def)
  then have "st' = fold (\<lambda>m s. snd (run_convert m (dest_path_of os args m) s)) ms st1"
    using Cons.IH rest by simp
  then show ?case using step by simp
qed

text \<open>
  Claim C9. When the range is valid and expands to no name at all, the filter is not
  run and the selection returns every file that was found. \<^verbatim>\<open>main\<close> then does not end
  with an invalid range: it prints the number of all the files found and calls the
  converter on them in order. When no call raises, every file found has been converted,
  and the final state is the converter run over all of them, with \<^verbatim>\<open>builtins.print\<close>
  put back; when a call raises, the files converted are an initial part of those found.
\<close>

theorem select_meshes_empty_range:
  assumes "args_subdirs args = Some sd" and "sd \<noteq> []"
    and "expand_range (strip sd) = Inr []"
    and "main os args tqdm_write run_convert discovered st = (evs, res, st')"
  shows "select_meshes os args discovered = Inr discovered
         \<and> (\<forall>err. res \<noteq> Some (InvalidSpec err))
         \<and> (\<exists>k\<le>length discovered.
               evs = Printed tqdm_write
                       (''Number of files to convert: '' @ str_int (int (length discovered)))
                     # map (\<lambda>m. Converted m (dest_path_of os args m)) (take k discovered)
               \<and> (res = None \<longrightarrow> k = length discovered))
         \<and> (res = None \<longrightarrow>
               (\<forall>m\<in>set discovered. Converted m (dest_path_of os args m) \<in> set evs)
               \<and> st' = (fold (\<lambda>m s. snd (run_convert m (dest_path_of os args m) s)) discovered
                          (st\<lparr>builtins_print := tqdm_write\<rparr>))
                        \<lparr>builtins_print := builtins_print st\<rparr>)"
proof -
  let ?line = "''Number of files to convert: '' @ str_int (int (length discovered))"
  let ?conv = "\<lambda>m. Converted m (dest_path_of os args m)"
  have sel: "select_meshes os args discovered = Inr discovered"
    using assms(1,2,3) by (simp add: select_meshes_def)
  obtain evs1 res1 st2 where loop:
    "convert_loop os args run_convert discovered (st\<lparr>builtins_print := tqdm_write\<rparr>)
       = (evs1, res1, st2)"
    by (cases "convert_loop os args run_convert discovered (st\<lparr>builtins_print := tqdm_write\<rparr>)")
  have m: "evs = Printed tqdm_write ?line # evs1" "res = map_option ItemFailed res1"
    "st' = st2\<lparr>builtins_print := builtins_print st\<rparr>"
    using assms(4) sel loop by (simp_all add: main_def run_batch_def Let_def)
  obtain k where k: "k \<le> length discovered" "evs1 = map ?conv (take k discovered)"
    "res1 = None \<longrightarrow> k = length discovered"
    using convert_loop_events [OF loop] by blast
  have a: "\<forall>err. res \<noteq> Some (InvalidSpec err)" using m(2) by (cases res1) auto
  have b: "\<exists>k\<le>length discovered.
             evs = Printed tqdm_write ?line # map ?conv (take k discovered)
             \<and> (res = None \<longrightarrow> k = length discovered)"
    using k m(1,2) by (intro exI [of _ k]) simp
  have c: "res = None \<longrightarrow>
             (\<forall>m\<in>set discovered. Converted m (dest_path_of os args m) \<in> set evs)
             \<and> st' = (fold (\<lambda>m s. snd (run_convert m (dest_path_of os args m) s)) discovered
                        (st\<lparr>builtins_print := tqdm_write\<rparr>))
                      \<lparr>builtins_print := builtins_print st\<rparr>"
  proof
    assume "res = None"
    then have r1: "res1 = None" using m(2) by simp
    then have "evs1 = map ?conv discovered" using k by simp
    then have "\<forall>m\<in>set discovered. Converted m (dest_path_of os args m) \<in> set evs"
      using m(1) by simp
    moreover have "st2 = fold (\<lambda>m s. snd (run_convert m (dest_path_of os args m) s)) discovered
                        (st\<lparr>builtins_print := tqdm_write\<rparr>)"
      using loop r1 convert_loop_fold by blast
    ultimately show "(\<forall>m\<in>set discovered. Converted m (dest_path_of os args m) \<in> set evs)
             \<and> st' = (fold (\<lambda>m s. snd (run_convert m (dest_path_of os args m) s)) discovered
                        (st\<lparr>builtins_print := tqdm_write\<rparr>))
                      \<lparr>builtins_print := builtins_print st\<rparr>"
      using m(3) by simp
  qed
  show ?thesis using sel a b c by blast
qed

theorem select_meshes_empty_range_witness:
  "expand_range (strip '' a5..a5 '') = Inr []
   \<and> main example_os (example_args (Some '' a5..a5 '')) TqdmWrite example_convert
       [''in/a4/m.glb'', ''in/a5/n.glb'', ''in/z.obj'']
       \<lparr>builtins_print = BuiltinPrint, world = []\<rparr>
     = ([Printed TqdmWrite ''Number of files to convert: 3'',
         Converted ''in/a4/m.glb'' ''out/a4/m/m.usd'',
         Converted ''in/a5/n.glb'' ''out/a5/n/n.usd'',
         Converted ''in/z.obj'' ''out/z/z.usd''],
        None,
        \<lparr>builtins_print = BuiltinPrint,
         world = [(''in/a4/m.glb'', ''out/a4/m/m.usd''), (''in/a5/n.glb'', ''out/a5/n/n.usd''),
                  (''in/z.obj'', ''out/z/z.usd'')]\<rparr>)"
proof -
  let ?args = "example_args (Some '' a5..a5 '')"
  let ?ms = "[''in/a4/m.glb'', ''in/a5/n.glb'', ''in/z.obj'']"
  let ?st = "\<lparr>builtins_print = BuiltinPrint, world = []\<rparr> :: (printer, (string \<times> string) list) interp"
  have 1: "args_subdirs ?args = Some '' a5..a5 ''" by (simp add: example_args_def)
  have 2: "'' a5..a5 '' \<noteq> []" by simp
  have 3: "expand_range (strip '' a5..a5 '') = Inr []" by code_simp
  have d: "dest_path_of example_os ?args ''in/a4/m.glb'' = ''out/a4/m/m.usd''"
    "dest_path_of example_os ?args ''in/a5/n.glb'' = ''out/a5/n/n.usd''"
    "dest_path_of example_os ?args ''in/z.obj'' = ''out/z/z.usd''"
    by (simp_all add: dest_path_of_def example_os_def example_args_def)
  have n3: "str_int (int (length ?ms)) = ''3''" by code_simp
  have c: "example_convert m dp s = (None, s\<lparr>world := world s @ [(m, dp)]\<rparr>)"
    if "m \<noteq> ''in/001/bad.obj''" for m dp and s :: "(printer, (string \<times> string) list) interp"
    using that by (simp add: example_convert_def)
  obtain evs res st' where r:
    "main example_os ?args TqdmWrite example_convert ?ms ?st = (evs, res, st')"
    by (cases "main example_os ?args TqdmWrite example_convert ?ms ?st")
  note t = select_meshes_empty_range [OF 1 2 3 r]
  have sel: "select_meshes example_os ?args ?ms = Inr ?ms" using t by blast
  have res: "res = None"
    using r sel by (simp add: main_def run_batch_def Let_def d c)
  have evs: "evs = [Printed TqdmWrite ''Number of files to convert: 3'',
         Converted ''in/a4/m.glb'' ''out/a4/m/m.usd'',
         Converted ''in/a5/n.glb'' ''out/a5/n/n.usd'',
         Converted ''in/z.obj'' ''out/z/z.usd'']"
    using t res n3 d by auto
  have st: "st' = \<lparr>builtins_print = BuiltinPrint,
         world = [(''in/a4/m.glb'', ''out/a4/m/m.usd''), (''in/a5/n.glb'', ''out/a5/n/n.usd''),
                  (''in/z.obj'', ''out/z/z.usd'')]\<rparr>"
    using t res by (simp add: d c)
  show ?thesis using 3 r res evs st by simp
qed

end
